theory Spec2Isabelle
  imports Main
begin

section \<open>Python text: code points, whitespace, line splitting\<close>

text \<open>
  A Python \<open>str\<close> is a sequence of Unicode code points. A code point is a natural number
  here, so that the whitespace and line-break characters beyond the 8-bit range are part
  of the model. \<open>u\<close> turns an ASCII literal into such a sequence.
\<close>

type_synonym codepoint = nat
type_synonym ustr = "codepoint list"

definition u :: "string \<Rightarrow> ustr" where
  "u s = map of_char s"

definition nl :: codepoint where
  "nl = 10"

definition bs :: codepoint where
  \<comment> \<open>the backslash\<close>
  "bs = 92"

definition isspace :: "codepoint \<Rightarrow> bool" where
  \<comment> \<open>\<open>Py_UNICODE_ISSPACE\<close>: the test behind \<open>str.strip\<close>, \<open>str.rstrip\<close> and the
      pattern class \<open>\s\<close> of a \<open>str\<close> pattern.\<close>
  "isspace c \<longleftrightarrow>
     (9 \<le> c \<and> c \<le> 13) \<or> (28 \<le> c \<and> c \<le> 32) \<or> c = 133 \<or> c = 160 \<or> c = 5760 \<or>
     (8192 \<le> c \<and> c \<le> 8202) \<or> c = 8232 \<or> c = 8233 \<or> c = 8239 \<or> c = 8287 \<or> c = 12288"

definition is_linebreak :: "codepoint \<Rightarrow> bool" where
  \<comment> \<open>The line boundaries of \<open>str.splitlines\<close>.\<close>
  "is_linebreak c \<longleftrightarrow>
     (10 \<le> c \<and> c \<le> 13) \<or> (28 \<le> c \<and> c \<le> 30) \<or> c = 133 \<or> c = 8232 \<or> c = 8233"

definition lstrip :: "ustr \<Rightarrow> ustr" where
  "lstrip s = dropWhile isspace s"

definition rstrip :: "ustr \<Rightarrow> ustr" where
  "rstrip s = rev (dropWhile isspace (rev s))"

definition strip :: "ustr \<Rightarrow> ustr" where
  "strip s = rstrip (lstrip s)"

definition startswith :: "ustr \<Rightarrow> ustr \<Rightarrow> bool" where
  "startswith s p \<longleftrightarrow> take (length p) s = p"

fun join :: "ustr \<Rightarrow> ustr list \<Rightarrow> ustr" where
  "join sep [] = []"
| "join sep [x] = x"
| "join sep (x # y # ys) = x @ sep @ join sep (y # ys)"

text \<open>
  \<open>str.splitlines()\<close> without \<open>keepends\<close>: the text is cut at every line boundary, a
  carriage return followed by a line feed is one boundary, and a text that ends in a
  boundary has no empty last line. The first argument is the line read so far.
\<close>

fun splitlines_from :: "ustr \<Rightarrow> ustr \<Rightarrow> ustr list" where
  "splitlines_from cur [] = (if cur = [] then [] else [cur])"
| "splitlines_from cur [c] = (if is_linebreak c then [cur] else [cur @ [c]])"
| "splitlines_from cur (c # d # cs) =
     (if c = 13 \<and> d = 10 then cur # splitlines_from [] cs
      else if is_linebreak c then cur # splitlines_from [] (d # cs)
      else splitlines_from (cur @ [c]) (d # cs))"

definition splitlines :: "ustr \<Rightarrow> ustr list" where
  "splitlines s = splitlines_from [] s"

definition slice :: "'a list \<Rightarrow> nat \<Rightarrow> nat \<Rightarrow> 'a list" where
  \<comment> \<open>\<open>xs[a:b]\<close> for indices that are not negative.\<close>
  "slice xs a b = drop a (take b xs)"

section \<open>The fragment of Python's \<open>re\<close> that the script uses\<close>

text \<open>
  \<open>re.escape\<close> puts a backslash before each of the characters
  \<open>()[]{}?*+-|^$\.&~#\<close>, space, tab, line feed, carriage return, vertical tab and form
  feed, and leaves every other character as it is.
\<close>

definition special_chars :: "codepoint list" where
  "special_chars = u ''()[]{}?*+-|^$'' @ [bs] @ u ''.&~# '' @ [9, 10, 13, 11, 12]"

fun re_escape :: "ustr \<Rightarrow> ustr" where
  "re_escape [] = []"
| "re_escape (c # cs) = (if c \<in> set special_chars then bs # c # re_escape cs else c # re_escape cs)"

text \<open>
  Patterns are read in two passes, tokens first. The fragment has literals, escaped
  characters, the class \<open>\s\<close>, \<open>.\<close>, the anchors \<open>^\<close> and \<open>$\<close>, alternation and the group
  \<open>(?:...)\<close>. Everything else (repetition, character sets, capturing groups, an escaped
  ASCII letter or digit other than \<open>s\<close>, a backslash at the end) is \<open>TBad\<close>, and a pattern
  with a \<open>TBad\<close> token does not compile in this model.
\<close>

datatype tok = TLit codepoint | TSpace | TDot | TBol | TEol | TOpen | TClose | TBar | TBad

definition is_ascii_alnum :: "codepoint \<Rightarrow> bool" where
  "is_ascii_alnum c \<longleftrightarrow> (48 \<le> c \<and> c \<le> 57) \<or> (65 \<le> c \<and> c \<le> 90) \<or> (97 \<le> c \<and> c \<le> 122)"

definition escaped_tok :: "codepoint \<Rightarrow> tok" where
  "escaped_tok c = (if c = of_char CHR ''s'' then TSpace
                    else if is_ascii_alnum c then TBad
                    else TLit c)"

definition plain_tok :: "codepoint \<Rightarrow> tok" where
  "plain_tok c =
     (if c = of_char CHR ''^'' then TBol
      else if c = of_char CHR ''$'' then TEol
      else if c = of_char CHR ''.'' then TDot
      else if c = of_char CHR ''|'' then TBar
      else if c = of_char CHR '')'' then TClose
      else if c \<in> set (u ''*+?{['') then TBad
      else TLit c)"

fun tokenize :: "ustr \<Rightarrow> tok list" where
  "tokenize [] = []"
| "tokenize (c # cs) =
     (if c = bs then
        (case cs of [] \<Rightarrow> [TBad] | d # ds \<Rightarrow> escaped_tok d # tokenize ds)
      else if c = of_char CHR ''('' then
        (case cs of
           q # k # ds \<Rightarrow>
             if q = of_char CHR ''?'' \<and> k = of_char CHR '':'' then TOpen # tokenize ds else [TBad]
         | _ \<Rightarrow> [TBad])
      else plain_tok c # tokenize cs)"

datatype rx = Lit codepoint | Space | Dot | Bol | Eol | Eps | Seq rx rx | Alt rx rx

text \<open>
  A frame of the parser holds the alternatives of the group read so far and the sequence
  being read; the stack holds the frames of the enclosing groups.
\<close>

type_synonym frame = "rx option \<times> rx"

fun close_frame :: "frame \<Rightarrow> rx" where
  "close_frame (None, cur) = cur"
| "close_frame (Some alts, cur) = Alt alts cur"

fun atom_rx :: "tok \<Rightarrow> rx" where
  "atom_rx (TLit c) = Lit c"
| "atom_rx TSpace = Space"
| "atom_rx TDot = Dot"
| "atom_rx TBol = Bol"
| "atom_rx TEol = Eol"
| "atom_rx _ = Eps"

fun parse :: "tok list \<Rightarrow> frame \<Rightarrow> frame list \<Rightarrow> rx option" where
  "parse [] f [] = Some (close_frame f)"
| "parse [] f (g # st) = None"
| "parse (TBad # ts) f st = None"
| "parse (TOpen # ts) f st = parse ts (None, Eps) (f # st)"
| "parse (TClose # ts) f [] = None"
| "parse (TClose # ts) f ((alts, cur) # st) = parse ts (alts, Seq cur (close_frame f)) st"
| "parse (TBar # ts) f st = parse ts (Some (close_frame f), Eps) st"
| "parse (t # ts) (alts, cur) st = parse ts (alts, Seq cur (atom_rx t)) st"

definition re_compile :: "ustr \<Rightarrow> rx option" where
  "re_compile p = parse (tokenize p) (None, Eps) []"

text \<open>
  Backtracking matching. A position is the number of characters consumed and the rest of
  the subject; \<open>rx_step r pos\<close> lists the positions that \<open>r\<close> can reach from \<open>pos\<close>, in the
  order in which the matcher tries them. Without the \<open>MULTILINE\<close> flag \<open>^\<close> holds at the
  start of the subject only, and \<open>$\<close> holds at its end and before a line feed that is its
  last character; \<open>.\<close> is any character but a line feed.
\<close>

type_synonym pos = "nat \<times> ustr"

fun rx_step :: "rx \<Rightarrow> pos \<Rightarrow> pos list" where
  "rx_step (Lit c) (n, s) = (case s of [] \<Rightarrow> [] | x # xs \<Rightarrow> if x = c then [(Suc n, xs)] else [])"
| "rx_step Space (n, s) = (case s of [] \<Rightarrow> [] | x # xs \<Rightarrow> if isspace x then [(Suc n, xs)] else [])"
| "rx_step Dot (n, s) = (case s of [] \<Rightarrow> [] | x # xs \<Rightarrow> if x \<noteq> 10 then [(Suc n, xs)] else [])"
| "rx_step Bol (n, s) = (if n = 0 then [(n, s)] else [])"
| "rx_step Eol (n, s) = (if s = [] \<or> s = [10] then [(n, s)] else [])"
| "rx_step Eps (n, s) = [(n, s)]"
| "rx_step (Seq a b) p = concat (map (rx_step b) (rx_step a p))"
| "rx_step (Alt a b) p = rx_step a p @ rx_step b p"

definition re_match :: "rx \<Rightarrow> ustr \<Rightarrow> bool" where
  \<comment> \<open>Whether \<open>pattern.match(s)\<close> returns a match object rather than \<open>None\<close>.\<close>
  "re_match r s \<longleftrightarrow> rx_step r (0, s) \<noteq> []"

section \<open>The script\<close>

text \<open>
  The world of one run: the text that \<open>Path("CHANGELOG.md").read_text(encoding="utf-8")\<close>
  returns in the working directory (\<open>None\<close> when the file cannot be read as UTF-8 text)
  and what has been written to the two output streams so far.

  \<open>main\<close> takes \<open>sys.argv\<close> and the world, and returns the world after the run together
  with the exit status that \<open>raise SystemExit(main())\<close> hands to the process, or with the
  exception that leaves \<open>main\<close> uncaught. The traceback that the interpreter prints for
  such an exception is not part of the model.
\<close>

record world =
  changelog_md :: "ustr option"
  stdout :: ustr
  stderr :: ustr

datatype py_exc =
    ReadError      \<comment> \<open>\<open>read_text\<close> raised: no such file, not UTF-8, ...\<close>
  | PatternError   \<comment> \<open>\<open>re.compile\<close> raised\<close>

definition print_stderr :: "ustr \<Rightarrow> world \<Rightarrow> world" where
  \<comment> \<open>\<open>print(msg, file=sys.stderr)\<close>\<close>
  "print_stderr msg w = w\<lparr>stderr := stderr w @ msg @ [nl]\<rparr>"

definition stdout_write :: "ustr \<Rightarrow> world \<Rightarrow> world" where
  \<comment> \<open>\<open>sys.stdout.write(s)\<close>\<close>
  "stdout_write s w = w\<lparr>stdout := stdout w @ s\<rparr>"

definition header_re :: "ustr \<Rightarrow> rx option" where
  \<comment> \<open>\<open>re.compile(rf"^## \[{re.escape(version)}\](?:\s|$)")\<close>\<close>
  "header_re version =
     re_compile (u ''^## '' @ [bs] @ u ''['' @ re_escape version @ [bs] @ u ''](?:'' @ [bs] @ u ''s|$)'')"

text \<open>The first loop: the index of the first line that the pattern matches, from \<open>i\<close> on.\<close>

fun find_start :: "rx \<Rightarrow> ustr list \<Rightarrow> nat \<Rightarrow> nat option" where
  "find_start hre [] i = None"
| "find_start hre (line # rest) i =
     (if re_match hre line then Some i else find_start hre rest (Suc i))"

text \<open>The second loop: \<open>end\<close> is the first \<open>j\<close> from \<open>start + 1\<close> on whose line starts with
  \<open>## [\<close>, and the number of lines when there is none.\<close>

function find_end :: "ustr list \<Rightarrow> nat \<Rightarrow> nat" where
  "find_end text j =
     (if j < length text
      then (if startswith (text ! j) (u ''## ['') then j else find_end text (Suc j))
      else length text)"
  by pat_completeness auto
termination
  by (relation "measure (\<lambda>(text, j). length text - j)") auto

declare find_end.simps [simp del]

text \<open>The two trimming loops, \<open>pop(0)\<close> and \<open>pop()\<close> while the line is blank.\<close>

fun trim_front :: "ustr list \<Rightarrow> ustr list" where
  "trim_front [] = []"
| "trim_front (l # ls) = (if strip l = [] then trim_front ls else l # ls)"

function trim_back :: "ustr list \<Rightarrow> ustr list" where
  "trim_back ls = (if ls \<noteq> [] \<and> strip (last ls) = [] then trim_back (butlast ls) else ls)"
  by pat_completeness auto
termination
  by (relation "measure length") auto

declare trim_back.simps [simp del]

definition body_of :: "ustr list \<Rightarrow> nat \<Rightarrow> ustr list" where
  \<comment> \<open>\<open>text[start + 1 : end]\<close> for the \<open>end\<close> that the second loop finds.\<close>
  "body_of text start = slice text (Suc start) (find_end text (Suc start))"

definition render :: "ustr list \<Rightarrow> ustr" where
  \<comment> \<open>\<open>"\n".join(body_lines).rstrip() + "\n"\<close>\<close>
  "render body_lines = rstrip (join [nl] body_lines) @ [nl]"

definition main :: "ustr list \<Rightarrow> world \<Rightarrow> (py_exc + int) \<times> world" where
  "main argv w =
     (if length argv \<noteq> 2 then
        (Inr 2, print_stderr (u ''Usage: extract_changelog.py <version>'') w)
      else
        let version = strip (argv ! 1) in
        if version = [] then (Inr 2, print_stderr (u ''Version cannot be empty'') w)
        else
          case changelog_md w of
            None \<Rightarrow> (Inl ReadError, w)
          | Some content \<Rightarrow>
              let text = splitlines content in
              (case header_re version of
                 None \<Rightarrow> (Inl PatternError, w)
               | Some hre \<Rightarrow>
                   (case find_start hre text 0 of
                      None \<Rightarrow>
                        (Inr 1,
                         print_stderr (u ''Could not find CHANGELOG section for version '' @ version) w)
                    | Some start \<Rightarrow>
                        let body_lines = body_of text start;
                            body_lines = trim_front body_lines;
                            body_lines = trim_back body_lines
                        in (Inr 0, stdout_write (render body_lines) w))))"

section \<open>What the compiled heading pattern is\<close>

text \<open>
  \<open>lits r v\<close> is \<open>r\<close> followed by the characters of \<open>v\<close> as literals, and \<open>header_rx v\<close> is
  the expression that the heading pattern for \<open>v\<close> is shown to compile to.
\<close>

definition lits :: "rx \<Rightarrow> ustr \<Rightarrow> rx" where
  "lits r v = foldl (\<lambda>a c. Seq a (Lit c)) r v"

definition header_rx :: "ustr \<Rightarrow> rx" where
  "header_rx v =
     Seq (Seq (lits (Seq (Seq (Seq (Seq (Seq Eps Bol) (Lit 35)) (Lit 35)) (Lit 32)) (Lit 91)) v) (Lit 93))
         (Alt (Seq Eps Space) (Seq Eps Eol))"

section \<open>Example documents\<close>

text \<open>The changelog of the specification's examples, as lines and as the text of the file.\<close>

definition example_lines :: "ustr list" where
  "example_lines = map u [''## [0.2.4] - 2024-01-01'', ''Fixed a bug.'', '''',
                          ''## [0.2.3] - 2023-12-01'', ''Initial release.'']"

definition example_changelog :: ustr where
  "example_changelog = join [nl] example_lines"

definition example_argv :: "ustr list" where
  "example_argv = [u ''scripts/extract_changelog.py'', u ''1.0'']"

definition duplicate_lines :: "ustr list" where
  "duplicate_lines =
     map u [''## [1.0] - first'', ''kept'', ''## [0.9]'', ''old'', ''## [1.0] - again'', ''ignored'']"

definition duplicate_changelog :: ustr where
  "duplicate_changelog = join [nl] duplicate_lines"

definition truncated_changelog :: ustr where
  "truncated_changelog = join [nl] (map u [''## [1.0] - first'', ''kept'', ''## [0.9]'', ''old''])"

definition duplicate_world :: world where
  "duplicate_world = \<lparr>changelog_md = Some duplicate_changelog, stdout = [], stderr = []\<rparr>"

definition padded_section :: "ustr list" where
  "padded_section = [[], u ''  '', u ''Added'', [], u ''- item '', u '' '', []]"

definition blank_section :: "ustr list" where
  "blank_section = [[], u ''   '', [9]]"

definition unreadable_world :: world where
  "unreadable_world = \<lparr>changelog_md = None, stdout = [], stderr = []\<rparr>"

definition example_world :: world where
  "example_world = \<lparr>changelog_md = Some example_changelog, stdout = [], stderr = []\<rparr>"


section \<open>Facts about stripping\<close>

lemma all_dropWhile: "(\<forall>c\<in>set (dropWhile P s). P c) \<longleftrightarrow> (\<forall>c\<in>set s. P c)"
  by (induction s) auto

lemma rstrip_Nil_iff: "rstrip s = [] \<longleftrightarrow> (\<forall>c\<in>set s. isspace c)"
  by (auto simp add: rstrip_def dropWhile_eq_Nil_conv)

lemma strip_Nil_iff: "strip s = [] \<longleftrightarrow> (\<forall>c\<in>set s. isspace c)"
  by (simp add: strip_def rstrip_Nil_iff lstrip_def all_dropWhile)

lemma rstrip_decomp: "s = rstrip s @ rev (takeWhile isspace (rev s))"
proof -
  have "rev (takeWhile isspace (rev s) @ dropWhile isspace (rev s)) = rev (rev s)"
    by (simp only: takeWhile_dropWhile_id)
  then have "rev (dropWhile isspace (rev s)) @ rev (takeWhile isspace (rev s)) = s"
    by (simp only: rev_append rev_rev_ident)
  then show ?thesis by (simp only: rstrip_def)
qed


lemma rstrip_idem: "rstrip (rstrip s) = rstrip s"
  by (simp add: rstrip_def)

lemma rstrip_id: "s \<noteq> [] \<Longrightarrow> \<not> isspace (last s) \<Longrightarrow> rstrip s = s"
  by (cases s rule: rev_cases) (simp_all add: rstrip_def)

lemma rstrip_append: "rstrip t \<noteq> [] \<Longrightarrow> rstrip (s @ t) = s @ rstrip t"
proof -
  assume "rstrip t \<noteq> []"
  then obtain x where x: "x \<in> set (rev t)" "\<not> isspace x"
    by (auto simp add: rstrip_def)
  have "dropWhile isspace (rev t @ rev s) = dropWhile isspace (rev t) @ rev s"
    using x by (rule dropWhile_append1)
  then show ?thesis by (simp add: rstrip_def)
qed

lemma hd_rstrip: "rstrip s \<noteq> [] \<Longrightarrow> hd (rstrip s) = hd s"
  using rstrip_decomp [of s] by (metis hd_append2)

lemma lstrip_id: "s = [] \<or> \<not> isspace (hd s) \<Longrightarrow> lstrip s = s"
  by (cases s) (auto simp add: lstrip_def)

lemma lstrip_hd: "lstrip s \<noteq> [] \<Longrightarrow> \<not> isspace (hd (lstrip s))"
  by (simp add: lstrip_def hd_dropWhile)

lemma strip_idem: "strip (strip s) = strip s"
proof (cases "strip s = []")
  case True
  have "strip [] = []" by (simp add: strip_def lstrip_def rstrip_def)
  then show ?thesis by (simp only: True)
next
  case False
  then have ne: "rstrip (lstrip s) \<noteq> []" by (simp add: strip_def)
  then have "lstrip s \<noteq> []" by (auto simp add: rstrip_def)
  then have "\<not> isspace (hd (lstrip s))" by (rule lstrip_hd)
  then have "\<not> isspace (hd (rstrip (lstrip s)))" using hd_rstrip [OF ne] by simp
  then have "lstrip (rstrip (lstrip s)) = rstrip (lstrip s)" by (simp add: lstrip_id)
  then show ?thesis by (simp add: strip_def rstrip_idem)
qed

section \<open>Facts about the pattern\<close>

lemma escaped_special: "c \<in> set special_chars \<Longrightarrow> escaped_tok c = TLit c"
  by (auto simp add: special_chars_def u_def bs_def escaped_tok_def is_ascii_alnum_def)

lemma plain_not_special:
  "c \<notin> set special_chars \<Longrightarrow> c \<noteq> bs \<and> c \<noteq> of_char CHR ''('' \<and> plain_tok c = TLit c"
  by (auto simp add: special_chars_def u_def bs_def plain_tok_def)

lemma tokenize_re_escape: "tokenize (re_escape v @ rest) = map TLit v @ tokenize rest"
proof (induction v)
  case Nil
  show ?case by simp
next
  case (Cons c v)
  show ?case
  proof (cases "c \<in> set special_chars")
    case True
    then show ?thesis using Cons escaped_special [OF True] by simp
  next
    case False
    then show ?thesis using Cons plain_not_special [OF False] by simp
  qed
qed

lemma parse_lits: "parse (map TLit v @ ts) (alts, cur) st = parse ts (alts, lits cur v) st"
  by (induction v arbitrary: cur) (simp_all add: lits_def)

lemma header_re_compiles: "header_re v = Some (header_rx v)"
proof -
  have "tokenize (u ''^## '' @ [bs] @ u ''['' @ re_escape v @ [bs] @ u ''](?:'' @ [bs] @ u ''s|$)'')
        = [TBol, TLit 35, TLit 35, TLit 32, TLit 91] @ map TLit v
          @ [TLit 93, TOpen, TSpace, TBar, TEol, TClose]"
    by (simp add: u_def bs_def plain_tok_def escaped_tok_def is_ascii_alnum_def tokenize_re_escape)
  then show ?thesis
    by (simp add: header_re_def re_compile_def parse_lits header_rx_def)
qed

lemma in_rx_step_Lit:
  "(m, t) \<in> set (rx_step (Lit c) (n, s)) \<longleftrightarrow> s = c # t \<and> m = Suc n"
  by (auto split: list.splits if_splits)

lemma in_rx_step_Seq:
  "q \<in> set (rx_step (Seq a b) p) \<longleftrightarrow>
     (\<exists>n s. (n, s) \<in> set (rx_step a p) \<and> q \<in> set (rx_step b (n, s)))"
  by auto

lemma in_rx_step_Seq_Lit:
  "(m, t) \<in> set (rx_step (Seq r (Lit c)) p) \<longleftrightarrow>
     (\<exists>n. (n, c # t) \<in> set (rx_step r p) \<and> m = Suc n)"
  unfolding in_rx_step_Seq in_rx_step_Lit by auto

lemma in_rx_step_lits:
  "(m, t) \<in> set (rx_step (lits r v) p) \<longleftrightarrow>
     (\<exists>n. (n, v @ t) \<in> set (rx_step r p) \<and> m = n + length v)"
proof (induction v arbitrary: r)
  case Nil
  show ?case by (simp add: lits_def)
next
  case (Cons c v)
  have "lits r (c # v) = lits (Seq r (Lit c)) v" by (simp add: lits_def)
  then show ?case
    by (auto simp add: Cons in_rx_step_Seq_Lit simp del: rx_step.simps)
qed

lemma in_rx_step_tail:
  "q \<in> set (rx_step (Alt (Seq Eps Space) (Seq Eps Eol)) (n, s)) \<longleftrightarrow>
     (\<exists>x xs. s = x # xs \<and> isspace x \<and> q = (Suc n, xs)) \<or> ((s = [] \<or> s = [10]) \<and> q = (n, s))"
  by (auto split: list.splits)

lemma header_rx_match:
  "re_match (header_rx v) line \<longleftrightarrow>
     (\<exists>rest. line = u ''## ['' @ v @ u '']'' @ rest \<and> (rest = [] \<or> isspace (hd rest)))"
proof -
  let ?pre = "Seq (Seq (Seq (Seq (Seq Eps Bol) (Lit 35)) (Lit 35)) (Lit 32)) (Lit 91)"
  have pre: "(n, s) \<in> set (rx_step ?pre (0, line)) \<longleftrightarrow> line = u ''## ['' @ s \<and> n = 4" for n s
    unfolding in_rx_step_Seq_Lit by (auto simp add: u_def)
  have mid: "(n, s) \<in> set (rx_step (Seq (lits ?pre v) (Lit 93)) (0, line)) \<longleftrightarrow>
                line = u ''## ['' @ v @ u '']'' @ s \<and> n = 5 + length v" for n s
    unfolding in_rx_step_Seq_Lit in_rx_step_lits pre by (auto simp add: u_def)
  have "re_match (header_rx v) line \<longleftrightarrow> (\<exists>q. q \<in> set (rx_step (header_rx v) (0, line)))"
    unfolding re_match_def by (cases "rx_step (header_rx v) (0, line)") auto
  also have "\<dots> \<longleftrightarrow> (\<exists>q n s. line = u ''## ['' @ v @ u '']'' @ s \<and> n = 5 + length v \<and>
        q \<in> set (rx_step (Alt (Seq Eps Space) (Seq Eps Eol)) (n, s)))"
    unfolding header_rx_def in_rx_step_Seq [of _ "Seq (lits ?pre v) (Lit 93)"] mid by blast
  also have "\<dots> \<longleftrightarrow>
      (\<exists>rest. line = u ''## ['' @ v @ u '']'' @ rest \<and> (rest = [] \<or> isspace (hd rest)))"
    unfolding in_rx_step_tail
  proof (rule iffI)
    assume "\<exists>q n s. line = u ''## ['' @ v @ u '']'' @ s \<and> n = 5 + length v \<and>
              ((\<exists>x xs. s = x # xs \<and> isspace x \<and> q = (Suc n, xs)) \<or> (s = [] \<or> s = [10]) \<and> q = (n, s))"
    then show "\<exists>rest. line = u ''## ['' @ v @ u '']'' @ rest \<and> (rest = [] \<or> isspace (hd rest))"
      by (auto simp add: isspace_def)
  next
    assume "\<exists>rest. line = u ''## ['' @ v @ u '']'' @ rest \<and> (rest = [] \<or> isspace (hd rest))"
    then obtain rest where r: "line = u ''## ['' @ v @ u '']'' @ rest" "rest = [] \<or> isspace (hd rest)"
      by blast
    show "\<exists>q n s. line = u ''## ['' @ v @ u '']'' @ s \<and> n = 5 + length v \<and>
              ((\<exists>x xs. s = x # xs \<and> isspace x \<and> q = (Suc n, xs)) \<or> (s = [] \<or> s = [10]) \<and> q = (n, s))"
      using r by (cases rest) auto
  qed
  finally show ?thesis .
qed

section \<open>Facts about the loops\<close>

lemma find_start_None_iff:
  "find_start hre text i = None \<longleftrightarrow> (\<forall>line\<in>set text. \<not> re_match hre line)"
  by (induction "text" arbitrary: i) auto

lemma find_start_Some_iff:
  "find_start hre text i = Some s \<longleftrightarrow>
     (\<exists>k. s = i + k \<and> k < length text \<and> re_match hre (text ! k) \<and> (\<forall>j<k. \<not> re_match hre (text ! j)))"
proof (induction "text" arbitrary: i)
  case Nil
  show ?case by simp
next
  case (Cons line rest)
  show ?case
  proof (cases "re_match hre line")
    case True
    have "(\<exists>k. s = i + k \<and> k < length (line # rest) \<and> re_match hre ((line # rest) ! k) \<and>
            (\<forall>j<k. \<not> re_match hre ((line # rest) ! j))) \<longleftrightarrow> s = i"
    proof
      assume "\<exists>k. s = i + k \<and> k < length (line # rest) \<and> re_match hre ((line # rest) ! k) \<and>
            (\<forall>j<k. \<not> re_match hre ((line # rest) ! j))"
      then obtain k where k: "s = i + k" "\<forall>j<k. \<not> re_match hre ((line # rest) ! j)" by blast
      have "k = 0"
      proof (rule ccontr)
        assume "k \<noteq> 0"
        then have "0 < k" by simp
        with k(2) have "\<not> re_match hre ((line # rest) ! 0)" by blast
        with True show False by simp
      qed
      with k(1) show "s = i" by simp
    next
      assume "s = i"
      with True show "\<exists>k. s = i + k \<and> k < length (line # rest) \<and> re_match hre ((line # rest) ! k) \<and>
            (\<forall>j<k. \<not> re_match hre ((line # rest) ! j))"
        by (intro exI [of _ 0]) simp
    qed
    with True show ?thesis by auto
  next
    case False
    have "(\<exists>k. s = i + k \<and> k < length (line # rest) \<and> re_match hre ((line # rest) ! k) \<and>
            (\<forall>j<k. \<not> re_match hre ((line # rest) ! j))) \<longleftrightarrow>
          (\<exists>k. s = Suc i + k \<and> k < length rest \<and> re_match hre (rest ! k) \<and>
            (\<forall>j<k. \<not> re_match hre (rest ! j)))" (is "?L \<longleftrightarrow> ?R")
    proof
      assume ?L
      then obtain k where k: "s = i + k" "k < length (line # rest)" "re_match hre ((line # rest) ! k)"
        "\<forall>j<k. \<not> re_match hre ((line # rest) ! j)" by blast
      from k(3) False obtain k' where k': "k = Suc k'" by (cases k) auto
      have "\<forall>j<k'. \<not> re_match hre (rest ! j)"
      proof (intro allI impI)
        fix j assume "j < k'"
        then have "Suc j < k" using k' by simp
        with k(4) have "\<not> re_match hre ((line # rest) ! Suc j)" by blast
        then show "\<not> re_match hre (rest ! j)" by simp
      qed
      with k k' show ?R by (intro exI [of _ k']) simp
    next
      assume ?R
      then obtain k where k: "s = Suc i + k" "k < length rest" "re_match hre (rest ! k)"
        "\<forall>j<k. \<not> re_match hre (rest ! j)" by blast
      have "\<forall>j<Suc k. \<not> re_match hre ((line # rest) ! j)"
      proof (intro allI impI)
        fix j assume j: "j < Suc k"
        show "\<not> re_match hre ((line # rest) ! j)"
          using False k(4) j by (cases j) auto
      qed
      with k show ?L by (intro exI [of _ "Suc k"]) simp
    qed
    with False Cons.IH [of "Suc i"] show ?thesis by simp
  qed
qed

lemma find_end_takeWhile:
  "j \<le> length text \<Longrightarrow>
   find_end text j = j + length (takeWhile (\<lambda>l. \<not> startswith l (u ''## ['')) (drop j text))"
proof (induction "text" j rule: find_end.induct)
  case (1 "text" j)
  show ?case
  proof (cases "j < length text")
    case True
    then have d: "drop j text = text ! j # drop (Suc j) text"
      by (simp add: Cons_nth_drop_Suc)
    show ?thesis
    proof (cases "startswith (text ! j) (u ''## ['')")
      case sw: True
      then show ?thesis using True d by (subst find_end.simps) simp
    next
      case sw: False
      have "find_end text (Suc j) =
              Suc j + length (takeWhile (\<lambda>l. \<not> startswith l (u ''## ['')) (drop (Suc j) text))"
        using "1.IH" [OF True sw] True by simp
      then show ?thesis using True d sw by (subst find_end.simps) simp
    qed
  next
    case False
    with "1.prems" have "j = length text" by simp
    then show ?thesis by (subst find_end.simps) simp
  qed
qed

lemma body_of_takeWhile:
  assumes "start < length text"
  shows "body_of text start = takeWhile (\<lambda>l. \<not> startswith l (u ''## ['')) (drop (Suc start) text)"
proof -
  let ?P = "\<lambda>l. \<not> startswith l (u ''## ['')"
  let ?rest = "drop (Suc start) text"
  have "slice text (Suc start) (Suc start + length (takeWhile ?P ?rest))
          = take (length (takeWhile ?P ?rest)) ?rest"
    by (simp add: slice_def drop_take)
  also have "\<dots> = takeWhile ?P ?rest"
  proof -
    have "?rest = takeWhile ?P ?rest @ dropWhile ?P ?rest" by simp
    then have "take (length (takeWhile ?P ?rest)) ?rest
                 = take (length (takeWhile ?P ?rest)) (takeWhile ?P ?rest @ dropWhile ?P ?rest)"
      by simp
    then show ?thesis by (simp only: append_eq_conv_conj take_all order_refl append_Nil2 take_append diff_self_eq_0 take_0) 
  qed
  finally show ?thesis
    using assms by (simp add: body_of_def find_end_takeWhile)
qed

lemma trim_front_dropWhile: "trim_front ls = dropWhile (\<lambda>l. strip l = []) ls"
  by (induction ls) auto

lemma trim_back_dropWhile: "trim_back ls = rev (dropWhile (\<lambda>l. strip l = []) (rev ls))"
proof (induction ls rule: trim_back.induct)
  case (1 ls)
  show ?case
  proof (cases "ls \<noteq> [] \<and> strip (last ls) = []")
    case True
    then obtain xs x where ls: "ls = xs @ [x]" "strip x = []"
      by (cases ls rule: rev_cases) auto
    have "trim_back ls = trim_back xs" using ls by (subst trim_back.simps) simp
    also have "\<dots> = rev (dropWhile (\<lambda>l. strip l = []) (rev xs))"
      using "1.IH" True ls by simp
    finally show ?thesis using ls by simp
  next
    case False
    then have "trim_back ls = ls" by (subst trim_back.simps) auto
    moreover have "rev (dropWhile (\<lambda>l. strip l = []) (rev ls)) = ls"
      using False by (cases ls rule: rev_cases) auto
    ultimately show ?thesis by simp
  qed
qed

lemma find_end_spec:
  "j \<le> length text \<Longrightarrow>
   j \<le> find_end text j \<and> find_end text j \<le> length text \<and>
   (\<forall>i. j \<le> i \<and> i < find_end text j \<longrightarrow> \<not> startswith (text ! i) (u ''## ['')) \<and>
   (find_end text j < length text \<longrightarrow> startswith (text ! find_end text j) (u ''## [''))"
proof (induction "text" j rule: find_end.induct)
  case (1 "text" j)
  show ?case
  proof (cases "j < length text")
    case False
    then have "find_end text j = length text" by (subst find_end.simps) simp
    moreover have "j = length text" using False "1.prems" by simp
    ultimately show ?thesis by auto
  next
    case True
    show ?thesis
    proof (cases "startswith (text ! j) (u ''## ['')")
      case sw: True
      have "find_end text j = j" using True sw by (subst find_end.simps) simp
      then show ?thesis using True sw by auto
    next
      case sw: False
      have e: "find_end text j = find_end text (Suc j)"
        using True sw by (subst find_end.simps) simp
      have IH: "Suc j \<le> find_end text (Suc j) \<and> find_end text (Suc j) \<le> length text \<and>
          (\<forall>i. Suc j \<le> i \<and> i < find_end text (Suc j) \<longrightarrow> \<not> startswith (text ! i) (u ''## ['')) \<and>
          (find_end text (Suc j) < length text \<longrightarrow> startswith (text ! find_end text (Suc j)) (u ''## [''))"
        using "1.IH" [OF True sw] True by simp
      have "\<forall>i. j \<le> i \<and> i < find_end text (Suc j) \<longrightarrow> \<not> startswith (text ! i) (u ''## ['')"
      proof (intro allI impI)
        fix i assume i: "j \<le> i \<and> i < find_end text (Suc j)"
        show "\<not> startswith (text ! i) (u ''## ['')"
        proof (cases "i = j")
          case True
          then show ?thesis using sw by simp
        next
          case False
          then have "Suc j \<le> i" using i by simp
          then show ?thesis using IH i by blast
        qed
      qed
      then show ?thesis using IH unfolding e by auto
    qed
  qed
qed

lemma slice_nth: "b \<le> length xs \<Longrightarrow> slice xs a b = map ((!) xs) [a..<b]"
  by (simp add: slice_def list_eq_iff_nth_eq)

lemma header_rx_startswith: "re_match (header_rx v) line \<Longrightarrow> startswith line (u ''## ['')"
  by (auto simp add: header_rx_match startswith_def u_def)

lemma find_start_take:
  assumes "find_start hre text 0 = Some start" and "start < k"
  shows "find_start hre (take k text) 0 = Some start"
proof -
  from assms(1) have s: "start < length text" "re_match hre (text ! start)"
    "\<forall>j<start. \<not> re_match hre (text ! j)"
    by (auto simp add: find_start_Some_iff)
  have "start < length (take k text)" using s(1) assms(2) by simp
  moreover have "re_match hre (take k text ! start)" using s(2) assms(2) by simp
  moreover have "\<forall>j<start. \<not> re_match hre (take k text ! j)" using s(3) assms(2) by simp
  ultimately show ?thesis unfolding find_start_Some_iff by auto
qed

lemma body_of_take:
  assumes "start < k" and "k < length text" and "startswith (text ! k) (u ''## ['')"
  shows "body_of (take k text) start = body_of text start"
proof -
  let ?P = "\<lambda>l. \<not> startswith l (u ''## ['')"
  have len: "length (take k text) = k" using assms by simp
  have "drop (Suc start) (take k text @ drop k text)
          = drop (Suc start) (take k text) @ drop (Suc start - k) (drop k text)"
    by (simp only: drop_append len)
  moreover have "Suc start - k = 0" using assms by simp
  ultimately have "drop (Suc start) text = drop (Suc start) (take k text) @ drop k text"
    by (simp only: append_take_drop_id drop_0)
  also have "drop k text = text ! k # drop (Suc k) text"
    using assms(2) by (simp add: Cons_nth_drop_Suc)
  finally have "takeWhile ?P (drop (Suc start) text) = takeWhile ?P (drop (Suc start) (take k text))"
    using assms(3) by (simp add: takeWhile_tail)
  moreover have "start < length (take k text)" using assms by simp
  moreover have "start < length text" using assms by simp
  ultimately show ?thesis by (simp add: body_of_takeWhile)
qed

lemma main_with_document:
  assumes "length argv = 2" and "strip (argv ! 1) \<noteq> []" and "changelog_md w = Some content"
  shows "main argv w =
     (case find_start (header_rx (strip (argv ! 1))) (splitlines content) 0 of
        None \<Rightarrow> (Inr 1, print_stderr (u ''Could not find CHANGELOG section for version '' @ strip (argv ! 1)) w)
      | Some start \<Rightarrow>
          (Inr 0, stdout_write (render (trim_back (trim_front (body_of (splitlines content) start)))) w))"
  using assms by (simp add: main_def header_re_compiles Let_def split: option.splits)

lemma main_usage:
  assumes "length argv \<noteq> 2 \<or> strip (argv ! 1) = []"
  shows "main argv w =
     (Inr 2, print_stderr (if length argv \<noteq> 2 then u ''Usage: extract_changelog.py <version>''
                           else u ''Version cannot be empty'') w)"
  using assms by (auto simp add: main_def Let_def)

lemma print_stderr_changelog:
  "(print_stderr msg w)\<lparr>changelog_md := c\<rparr> = print_stderr msg (w\<lparr>changelog_md := c\<rparr>)"
  by (simp add: print_stderr_def)

lemma stdout_write_changelog:
  "(stdout_write s w)\<lparr>changelog_md := c\<rparr> = stdout_write s (w\<lparr>changelog_md := c\<rparr>)"
  by (simp add: stdout_write_def)

lemma rev_dropWhile_decomp: "xs = rev (dropWhile P (rev xs)) @ rev (takeWhile P (rev xs))"
proof -
  have "rev (takeWhile P (rev xs) @ dropWhile P (rev xs)) = rev (rev xs)"
    by (simp only: takeWhile_dropWhile_id)
  then have "rev (dropWhile P (rev xs)) @ rev (takeWhile P (rev xs)) = xs"
    by (simp only: rev_append rev_rev_ident)
  then show ?thesis by simp
qed

lemma blank_iff: "(\<lambda>l. strip l = []) = (\<lambda>l. \<forall>c\<in>set l. isspace c)"
  by (simp add: strip_Nil_iff)

lemma splitlines_example: "splitlines example_changelog = example_lines"
  by (simp add: example_changelog_def example_lines_def splitlines_def u_def is_linebreak_def nl_def)

section \<open>Facts about lines and joining\<close>

lemma splitlines_from_clean:
  "\<forall>c\<in>set cur. \<not> is_linebreak c \<Longrightarrow>
   \<forall>l\<in>set (splitlines_from cur s). \<forall>c\<in>set l. \<not> is_linebreak c"
proof (induction cur s rule: splitlines_from.induct)
  case (1 cur)
  then show ?case by simp
next
  case (2 cur c)
  then show ?case by simp
next
  case (3 cur c d cs)
  show ?case
  proof (cases "c = 13 \<and> d = 10")
    case True
    have e: "splitlines_from cur (c # d # cs) = cur # splitlines_from [] cs"
      using True by simp
    have "\<forall>l\<in>set (splitlines_from [] cs). \<forall>c\<in>set l. \<not> is_linebreak c"
      by (rule "3.IH"(1) [OF True]) simp
    then show ?thesis unfolding e using "3.prems" by simp
  next
    case False
    note nf = False
    show ?thesis
    proof (cases "is_linebreak c")
      case True
      have e: "splitlines_from cur (c # d # cs) = cur # splitlines_from [] (d # cs)"
        by (simp only: splitlines_from.simps nf True if_True if_False)
      have "\<forall>l\<in>set (splitlines_from [] (d # cs)). \<forall>c\<in>set l. \<not> is_linebreak c"
        by (rule "3.IH"(2) [OF nf True]) simp
      then show ?thesis unfolding e using "3.prems" by simp
    next
      case False
      have e: "splitlines_from cur (c # d # cs) = splitlines_from (cur @ [c]) (d # cs)"
        by (simp only: splitlines_from.simps nf False if_False)
      have "\<forall>c\<in>set (cur @ [c]). \<not> is_linebreak c" using False "3.prems" by simp
      then show ?thesis unfolding e by (rule "3.IH"(3) [OF nf False])
    qed
  qed
qed

lemma splitlines_clean: "l \<in> set (splitlines s) \<Longrightarrow> c \<in> set l \<Longrightarrow> \<not> is_linebreak c"
  using splitlines_from_clean [of "[]" s] by (simp add: splitlines_def)

lemma splitlines_from_line:
  "\<forall>c\<in>set l. \<not> is_linebreak c \<Longrightarrow>
   splitlines_from cur (l @ nl # rest) = (cur @ l) # splitlines_from [] rest"
proof (induction l arbitrary: cur)
  case Nil
  show ?case by (cases rest) (simp_all add: nl_def is_linebreak_def)
next
  case (Cons c l)
  then have c: "\<not> is_linebreak c" and l: "\<forall>c\<in>set l. \<not> is_linebreak c" by simp_all
  obtain d ds where ds: "l @ nl # rest = d # ds" by (cases "l @ nl # rest") simp_all
  have "c \<noteq> 13" using c by (auto simp add: is_linebreak_def)
  then have "splitlines_from cur ((c # l) @ nl # rest) = splitlines_from (cur @ [c]) (l @ nl # rest)"
    using c by (simp add: ds)
  also have "\<dots> = ((cur @ [c]) @ l) # splitlines_from [] rest"
    using l by (rule Cons.IH)
  finally show ?case by simp
qed

lemma splitlines_join:
  "ls \<noteq> [] \<Longrightarrow> \<forall>l\<in>set ls. \<forall>c\<in>set l. \<not> is_linebreak c \<Longrightarrow>
   splitlines (join [nl] ls @ [nl]) = ls"
proof (induction "[nl]" ls rule: join.induct)
  case 1
  then show ?case by simp
next
  case (2 x)
  then show ?case using splitlines_from_line [of x "[]" "[]"] by (simp add: splitlines_def)
next
  case (3 x y ys)
  have "splitlines (join [nl] (x # y # ys) @ [nl]) = splitlines_from [] (x @ nl # (join [nl] (y # ys) @ [nl]))"
    by (simp add: splitlines_def)
  also have "\<dots> = x # splitlines_from [] (join [nl] (y # ys) @ [nl])"
    using splitlines_from_line [of x "[]"] "3.prems" by simp
  also have "splitlines_from [] (join [nl] (y # ys) @ [nl]) = y # ys"
    using "3.hyps" "3.prems" by (simp add: splitlines_def)
  finally show ?case .
qed

lemma join_snoc:
  "join sep (xs @ [b]) = (if xs = [] then b else join sep xs @ sep @ b)"
  by (induction sep xs rule: join.induct) simp_all

lemma startswith_rstrip: "startswith (rstrip b) p \<Longrightarrow> startswith b p"
proof -
  assume a: "startswith (rstrip b) p"
  then have t: "take (length p) (rstrip b) = p" by (simp add: startswith_def)
  then have "length (take (length p) (rstrip b)) = length p" by simp
  then have "length p \<le> length (rstrip b)" by simp
  then have "take (length p) (rstrip b @ rev (takeWhile isspace (rev b))) = take (length p) (rstrip b)"
    by simp
  then have "take (length p) b = take (length p) (rstrip b)"
    by (simp only: rstrip_decomp [symmetric])
  with t show ?thesis by (simp add: startswith_def)
qed

lemma set_rstrip: "set (rstrip b) \<subseteq> set b"
  by (auto simp add: rstrip_def dest: set_dropWhileD)

section \<open>Facts about a successful run\<close>

lemma main_success:
  assumes "main argv w = (Inr 0, w')"
  shows "length argv = 2 \<and> strip (argv ! 1) \<noteq> [] \<and>
         (\<exists>content start.
            changelog_md w = Some content \<and>
            find_start (header_rx (strip (argv ! 1))) (splitlines content) 0 = Some start \<and>
            w' = stdout_write (render (trim_back (trim_front (body_of (splitlines content) start)))) w)"
proof (cases "length argv \<noteq> 2 \<or> strip (argv ! 1) = []")
  case True
  from assms show ?thesis unfolding main_usage [OF True] by simp
next
  case False
  then have a: "length argv = 2" "strip (argv ! 1) \<noteq> []" by simp_all
  show ?thesis
  proof (cases "changelog_md w")
    case None
    with assms a show ?thesis by (simp add: main_def Let_def)
  next
    case (Some content)
    show ?thesis
    proof (cases "find_start (header_rx (strip (argv ! 1))) (splitlines content) 0")
      case None
      with assms show ?thesis unfolding main_with_document [OF a Some] by simp
    next
      case (Some start)
      with assms have "w' = stdout_write (render (trim_back (trim_front (body_of (splitlines content) start)))) w"
        unfolding main_with_document [OF a \<open>changelog_md w = Some content\<close>] by simp
      with a Some \<open>changelog_md w = Some content\<close> show ?thesis by blast
    qed
  qed
qed

lemma rstrip_Nil_strip: "rstrip b = [] \<longleftrightarrow> strip b = []"
  by (simp add: rstrip_Nil_iff strip_Nil_iff)

lemma render_Nil: "render [] = [nl]"
  by (simp add: render_def rstrip_def)

lemma render_snoc:
  assumes "strip b \<noteq> []"
  shows "render (xs @ [b]) = join [nl] (xs @ [rstrip b]) @ [nl]"
proof -
  from assms have ne: "rstrip b \<noteq> []" by (simp add: rstrip_Nil_strip)
  show ?thesis
  proof (cases "xs = []")
    case True
    then show ?thesis by (simp add: render_def)
  next
    case False
    have "rstrip ((join [nl] xs @ [nl]) @ b) = (join [nl] xs @ [nl]) @ rstrip b"
      using ne by (rule rstrip_append)
    then show ?thesis using False by (simp add: render_def join_snoc)
  qed
qed

lemma trim_back_last: "trim_back ls \<noteq> [] \<Longrightarrow> strip (last (trim_back ls)) \<noteq> []"
proof -
  assume "trim_back ls \<noteq> []"
  then have ne: "dropWhile (\<lambda>l. strip l = []) (rev ls) \<noteq> []"
    by (simp add: trim_back_dropWhile)
  then have "\<not> strip (hd (dropWhile (\<lambda>l. strip l = []) (rev ls))) = []"
    by (rule hd_dropWhile)
  then show ?thesis using ne by (simp add: trim_back_dropWhile last_rev)
qed

lemma set_trim: "set (trim_back (trim_front ls)) \<subseteq> set ls"
  by (auto simp add: trim_back_dropWhile trim_front_dropWhile dest!: set_dropWhileD)

lemma body_of_lines:
  assumes "start < length text" and "l \<in> set (body_of text start)"
  shows "l \<in> set text \<and> \<not> startswith l (u ''## ['')"
proof -
  from assms have "l \<in> set (takeWhile (\<lambda>l. \<not> startswith l (u ''## ['')) (drop (Suc start) text))"
    by (simp add: body_of_takeWhile)
  then have "l \<in> set (drop (Suc start) text) \<and> \<not> startswith l (u ''## ['')"
    by (rule set_takeWhileD)
  then show ?thesis by (auto dest: in_set_dropD)
qed

section \<open>The runs of the examples\<close>


lemma main_example:
  "main [u ''extract_changelog.py'', u ''0.2.4''] example_world =
     (Inr 0, example_world\<lparr>stdout := u ''Fixed a bug.'' @ [nl]\<rparr>)"
proof -
  let ?argv = "[u ''extract_changelog.py'', u ''0.2.4'']"
  have v: "strip (?argv ! 1) = u ''0.2.4''"
    by (simp add: strip_def lstrip_def rstrip_def isspace_def u_def)
  have a: "length ?argv = 2" "strip (?argv ! 1) \<noteq> []"
    unfolding v by (simp_all add: u_def)
  have c: "changelog_md example_world = Some example_changelog"
    by (simp add: example_world_def)
  have m: "re_match (header_rx (u ''0.2.4'')) (u ''## [0.2.4] - 2024-01-01'')"
    unfolding header_rx_match by (simp add: u_def isspace_def)
  have fs: "find_start (header_rx (u ''0.2.4'')) example_lines 0 = Some 0"
    using m by (simp add: example_lines_def)
  have b: "body_of example_lines 0 = [u ''Fixed a bug.'', []]"
    by (simp add: body_of_def slice_def find_end.simps startswith_def example_lines_def u_def)
  have t: "trim_back (trim_front [u ''Fixed a bug.'', []]) = [u ''Fixed a bug.'']"
    by (simp add: trim_back_dropWhile trim_front_dropWhile strip_def lstrip_def rstrip_def
        isspace_def u_def)
  have r: "render [u ''Fixed a bug.''] = u ''Fixed a bug.'' @ [nl]"
    by (simp add: render_def rstrip_def isspace_def u_def)
  have "main ?argv example_world =
          (Inr 0, stdout_write (render (trim_back (trim_front (body_of example_lines 0)))) example_world)"
    using main_with_document [OF a c] unfolding v splitlines_example fs by simp
  then show ?thesis
    unfolding b t r by (simp add: stdout_write_def example_world_def)
qed

section \<open>The heading matcher\<close>

text \<open>
  C1. For a version identifier that is not empty after trimming, the heading pattern
  compiles, and it matches a line exactly when the line starts with the literal text
  \<open>## [\<close>, the trimmed identifier and \<open>]\<close>, and this prefix is followed by a whitespace
  character or by the end of the line. Every character of the identifier, special in a
  pattern or not, stands for itself.
\<close>

theorem header_re_matches_literal_heading:
  assumes "strip ident \<noteq> []"
  shows "\<exists>hre. header_re (strip ident) = Some hre \<and>
           (\<forall>line. re_match hre line \<longleftrightarrow>
              (\<exists>rest. line = u ''## ['' @ strip ident @ u '']'' @ rest \<and>
                      (rest = [] \<or> isspace (hd rest))))"
  by (simp add: header_re_compiles header_rx_match)

theorem header_re_matches_literal_heading_witness:
  "strip (u '' *1.2[3] '') \<noteq> [] \<and>
   (\<exists>hre. header_re (strip (u '' *1.2[3] '')) = Some hre \<and>
      re_match hre (u ''## [*1.2[3]] - 2024-01-01'') \<and>
      re_match hre (u ''## [*1.2[3]]'') \<and>
      \<not> re_match hre (u ''## [*1.2[3]]x'') \<and>
      \<not> re_match hre (u ''## [11x2[3]]''))"
proof -
  have s: "strip (u '' *1.2[3] '') = u ''*1.2[3]''"
    by (simp add: strip_def lstrip_def rstrip_def u_def isspace_def)
  have ne: "strip (u '' *1.2[3] '') \<noteq> []"
    unfolding s by (simp add: u_def)
  from header_re_matches_literal_heading [OF ne]
  obtain hre where h: "header_re (u ''*1.2[3]'') = Some hre"
    and m: "\<And>line. re_match hre line \<longleftrightarrow>
              (\<exists>rest. line = u ''## ['' @ u ''*1.2[3]'' @ u '']'' @ rest \<and>
                      (rest = [] \<or> isspace (hd rest)))"
    unfolding s by blast
  have "re_match hre (u ''## [*1.2[3]] - 2024-01-01'')"
    unfolding m by (simp add: u_def isspace_def)
  moreover have "re_match hre (u ''## [*1.2[3]]'')"
    unfolding m by (simp add: u_def)
  moreover have "\<not> re_match hre (u ''## [*1.2[3]]x'')"
    unfolding m by (auto simp add: u_def isspace_def)
  moreover have "\<not> re_match hre (u ''## [11x2[3]]'')"
    unfolding m by (simp add: u_def)
  ultimately show ?thesis using ne h s by simp
qed


section \<open>The raw section\<close>

text \<open>
  C2. When some line of the document matches the heading pattern, the first loop finds a
  line \<open>start\<close> that matches, and the raw section \<open>text[start + 1 : end]\<close> is the lines at
  the indices from \<open>start + 1\<close> up to, and without, \<open>e\<close>, in their order: none of them starts
  with \<open>## [\<close>, and \<open>e\<close> is either the index of a line that starts with \<open>## [\<close> or the
  number of lines of the document.
\<close>

theorem raw_section_between_headings:
  assumes "\<exists>line\<in>set text. re_match hre line"
  shows "\<exists>start e.
           find_start hre text 0 = Some start \<and> start < length text \<and> re_match hre (text ! start) \<and>
           Suc start \<le> e \<and> e \<le> length text \<and>
           body_of text start = map ((!) text) [Suc start..<e] \<and>
           (\<forall>i. Suc start \<le> i \<and> i < e \<longrightarrow> \<not> startswith (text ! i) (u ''## ['')) \<and>
           (e < length text \<longrightarrow> startswith (text ! e) (u ''## [''))"
proof -
  from assms have "find_start hre text 0 \<noteq> None"
    by (simp add: find_start_None_iff)
  then obtain start where st: "find_start hre text 0 = Some start" by blast
  then have lt: "start < length text" and m: "re_match hre (text ! start)"
    by (auto simp add: find_start_Some_iff)
  from lt have "Suc start \<le> length text" by simp
  note fe = find_end_spec [OF this]
  have "body_of text start = map ((!) text) [Suc start..<find_end text (Suc start)]"
    using fe by (simp add: body_of_def slice_nth)
  with st lt m fe show ?thesis by blast
qed

theorem raw_section_between_headings_witness:
  "(\<exists>line\<in>set example_lines. re_match (header_rx (u ''0.2.4'')) line) \<and>
   (\<exists>start e.
      find_start (header_rx (u ''0.2.4'')) example_lines 0 = Some start \<and>
      start < length example_lines \<and> re_match (header_rx (u ''0.2.4'')) (example_lines ! start) \<and>
      Suc start \<le> e \<and> e \<le> length example_lines \<and>
      body_of example_lines start = map ((!) example_lines) [Suc start..<e] \<and>
      (\<forall>i. Suc start \<le> i \<and> i < e \<longrightarrow> \<not> startswith (example_lines ! i) (u ''## ['')) \<and>
      (e < length example_lines \<longrightarrow> startswith (example_lines ! e) (u ''## [''))) \<and>
   body_of example_lines 0 = [u ''Fixed a bug.'', []]"
proof -
  have m: "re_match (header_rx (u ''0.2.4'')) (u ''## [0.2.4] - 2024-01-01'')"
    by code_simp
  then have h: "\<exists>line\<in>set example_lines. re_match (header_rx (u ''0.2.4'')) line"
    by (simp add: example_lines_def)
  have b: "body_of example_lines 0 = [u ''Fixed a bug.'', []]"
    by code_simp
  show ?thesis
    using h raw_section_between_headings [OF h] b by blast
qed

section \<open>The first matching heading wins\<close>

text \<open>
  C3. The section is the one of the first line that matches the heading pattern: no line
  before \<open>start\<close> matches. When a later line \<open>k\<close> matches the pattern of the same identifier
  as well, a run on the document cut off before line \<open>k\<close> (so that the later headings of
  that identifier and their sections are gone) returns the same exit status and writes
  the same text to both streams as the run on the whole document.
\<close>

theorem first_matching_heading_wins:
  assumes "header_re (strip (argv ! 1)) = Some hre"
    and "changelog_md w = Some content"
    and "find_start hre (splitlines content) 0 = Some start"
    and "start < k" and "k < length (splitlines content)"
    and "re_match hre (splitlines content ! k)"
    and "splitlines content' = take k (splitlines content)"
  shows "(\<forall>i<start. \<not> re_match hre (splitlines content ! i)) \<and>
         re_match hre (splitlines content ! start) \<and>
         main argv (w\<lparr>changelog_md := Some content'\<rparr>) =
           (fst (main argv w), (snd (main argv w))\<lparr>changelog_md := Some content'\<rparr>)"
proof -
  let ?v = "strip (argv ! 1)"
  let ?lines = "splitlines content"
  from assms(1) have hre: "hre = header_rx ?v" by (simp add: header_re_compiles)
  from assms(3) have first: "\<forall>i<start. \<not> re_match hre (?lines ! i)" "re_match hre (?lines ! start)"
    by (auto simp add: find_start_Some_iff)
  have run: "main argv (w\<lparr>changelog_md := Some content'\<rparr>) =
           (fst (main argv w), (snd (main argv w))\<lparr>changelog_md := Some content'\<rparr>)"
  proof (cases "length argv \<noteq> 2 \<or> ?v = []")
    case True
    show ?thesis
      unfolding main_usage [OF True] by (simp add: print_stderr_changelog)
  next
    case False
    then have a: "length argv = 2" "?v \<noteq> []" by simp_all
    have sw: "startswith (?lines ! k) (u ''## ['')"
      using assms(6) unfolding hre by (rule header_rx_startswith)
    have fs: "find_start (header_rx ?v) (take k ?lines) 0 = Some start"
      using assms(3,4) unfolding hre by (rule find_start_take)
    have bo: "body_of (take k ?lines) start = body_of ?lines start"
      using assms(4,5) sw by (rule body_of_take)
    have "main argv w =
            (Inr 0, stdout_write (render (trim_back (trim_front (body_of ?lines start)))) w)"
      using main_with_document [OF a assms(2)] assms(3) unfolding hre by simp
    moreover have "main argv (w\<lparr>changelog_md := Some content'\<rparr>) =
            (Inr 0, stdout_write (render (trim_back (trim_front (body_of ?lines start))))
                      (w\<lparr>changelog_md := Some content'\<rparr>))"
      using main_with_document [OF a, of "w\<lparr>changelog_md := Some content'\<rparr>" content'] fs bo assms(7)
      by simp
    ultimately show ?thesis by (simp add: stdout_write_changelog)
  qed
  with first show ?thesis by blast
qed

theorem first_matching_heading_wins_witness:
  "header_re (strip (example_argv ! 1)) = Some (header_rx (u ''1.0'')) \<and>
   changelog_md duplicate_world = Some duplicate_changelog \<and>
   find_start (header_rx (u ''1.0'')) (splitlines duplicate_changelog) 0 = Some 0 \<and>
   (0::nat) < 4 \<and> 4 < length (splitlines duplicate_changelog) \<and>
   re_match (header_rx (u ''1.0'')) (splitlines duplicate_changelog ! 4) \<and>
   splitlines truncated_changelog = take 4 (splitlines duplicate_changelog) \<and>
   main example_argv (duplicate_world\<lparr>changelog_md := Some truncated_changelog\<rparr>) =
     (fst (main example_argv duplicate_world),
      (snd (main example_argv duplicate_world))\<lparr>changelog_md := Some truncated_changelog\<rparr>)"
proof -
  have v: "strip (example_argv ! 1) = u ''1.0''"
    by (simp add: example_argv_def strip_def lstrip_def rstrip_def isspace_def u_def)
  have d: "splitlines duplicate_changelog = duplicate_lines"
    by (simp add: duplicate_changelog_def duplicate_lines_def splitlines_def u_def
        is_linebreak_def nl_def)
  have t: "splitlines truncated_changelog = take 4 duplicate_lines"
    by (simp add: truncated_changelog_def duplicate_lines_def splitlines_def u_def
        is_linebreak_def nl_def)
  have m0: "re_match (header_rx (u ''1.0'')) (u ''## [1.0] - first'')"
    unfolding header_rx_match by (simp add: u_def isspace_def)
  have m4: "re_match (header_rx (u ''1.0'')) (u ''## [1.0] - again'')"
    unfolding header_rx_match by (simp add: u_def isspace_def)
  have h1: "header_re (strip (example_argv ! 1)) = Some (header_rx (u ''1.0''))"
    unfolding v by (rule header_re_compiles)
  have h2: "changelog_md duplicate_world = Some duplicate_changelog"
    by (simp add: duplicate_world_def)
  have h3: "find_start (header_rx (u ''1.0'')) (splitlines duplicate_changelog) 0 = Some 0"
    unfolding d using m0 by (simp add: duplicate_lines_def)
  have h4: "(0::nat) < 4" by simp
  have h5: "4 < length (splitlines duplicate_changelog)"
    unfolding d by (simp add: duplicate_lines_def)
  have h6: "re_match (header_rx (u ''1.0'')) (splitlines duplicate_changelog ! 4)"
    unfolding d using m4 by (simp add: duplicate_lines_def)
  have h7: "splitlines truncated_changelog = take 4 (splitlines duplicate_changelog)"
    unfolding d by (rule t)
  show ?thesis
    using h1 h2 h3 h4 h5 h6 h7 first_matching_heading_wins [OF h1 h2 h3 h4 h5 h6 h7] by blast
qed

section \<open>Trimming blank lines\<close>

text \<open>
  C4. A line is blank when all its characters are whitespace (the empty line included).
  The two trimming loops drop the blank lines at the front and then the blank lines at the
  back of what is left: the raw section is a run of blank lines, the trimmed section, and a
  run of blank lines, so the lines in between, blank ones included, stay as they are and in
  their order. A trimmed section that is not empty starts and ends with a line that is not
  blank, and a raw section of blank lines only is trimmed to the empty sequence.
\<close>

theorem trim_blank_lines:
  "trim_back (trim_front body_lines) =
     rev (dropWhile (\<lambda>l. \<forall>c\<in>set l. isspace c) (rev (dropWhile (\<lambda>l. \<forall>c\<in>set l. isspace c) body_lines))) \<and>
   (\<exists>front rear.
      body_lines = front @ trim_back (trim_front body_lines) @ rear \<and>
      (\<forall>l\<in>set front. \<forall>c\<in>set l. isspace c) \<and>
      (\<forall>l\<in>set rear. \<forall>c\<in>set l. isspace c)) \<and>
   (trim_back (trim_front body_lines) \<noteq> [] \<longrightarrow>
      (\<exists>c\<in>set (hd (trim_back (trim_front body_lines))). \<not> isspace c) \<and>
      (\<exists>c\<in>set (last (trim_back (trim_front body_lines))). \<not> isspace c)) \<and>
   ((\<forall>l\<in>set body_lines. \<forall>c\<in>set l. isspace c) \<longrightarrow> trim_back (trim_front body_lines) = [])"
proof -
  let ?P = "\<lambda>l::ustr. \<forall>c\<in>set l. isspace c"
  let ?mid = "dropWhile ?P body_lines"
  let ?res = "rev (dropWhile ?P (rev ?mid))"
  let ?front = "takeWhile ?P body_lines"
  let ?rear = "rev (takeWhile ?P (rev ?mid))"
  have eq: "trim_back (trim_front body_lines) = ?res"
    by (simp add: trim_back_dropWhile trim_front_dropWhile blank_iff)
  have mid: "?mid = ?res @ ?rear" by (rule rev_dropWhile_decomp)
  have "body_lines = ?front @ ?mid" by simp
  then have dec: "body_lines = ?front @ ?res @ ?rear" by (simp only: mid [symmetric])
  have fr: "\<forall>l\<in>set ?front. ?P l" by (auto dest: set_takeWhileD)
  have bk: "\<forall>l\<in>set ?rear. ?P l" by (auto dest: set_takeWhileD)
  have ends: "(\<exists>c\<in>set (hd ?res). \<not> isspace c) \<and> (\<exists>c\<in>set (last ?res). \<not> isspace c)" if ne: "?res \<noteq> []"
  proof -
    from ne have dne: "dropWhile ?P (rev ?mid) \<noteq> []" by simp
    then have "\<not> ?P (hd (dropWhile ?P (rev ?mid)))" by (rule hd_dropWhile)
    then have l: "\<not> ?P (last ?res)" using dne by (simp add: last_rev)
    have mne: "?mid \<noteq> []"
    proof
      assume e: "?mid = []"
      have "?res = []" by (simp only: e rev.simps dropWhile.simps)
      with ne show False by simp
    qed
    then have nm: "\<not> ?P (hd ?mid)" by (rule hd_dropWhile)
    have "hd (?res @ ?rear) = hd ?res" using ne by (rule hd_append2)
    then have hh: "hd ?mid = hd ?res" by (simp only: mid [symmetric])
    from nm have h: "\<not> ?P (hd ?res)" unfolding hh .
    from h l show ?thesis by blast
  qed
  have allb: "?res = []" if "\<forall>l\<in>set body_lines. ?P l"
  proof -
    from that have e: "?mid = []" by simp
    show ?thesis by (simp only: e rev.simps dropWhile.simps)
  qed
  have c2: "\<exists>front rear. body_lines = front @ ?res @ rear \<and>
      (\<forall>l\<in>set front. ?P l) \<and> (\<forall>l\<in>set rear. ?P l)"
    using dec fr bk by (intro exI [of _ ?front] exI [of _ ?rear] conjI)
  have c3: "?res \<noteq> [] \<longrightarrow>
      (\<exists>c\<in>set (hd ?res). \<not> isspace c) \<and> (\<exists>c\<in>set (last ?res). \<not> isspace c)"
    using ends by (rule impI)
  have c4: "(\<forall>l\<in>set body_lines. ?P l) \<longrightarrow> ?res = []"
    using allb by (rule impI)
  show ?thesis
    unfolding eq by (intro conjI refl c2 c3 c4)
qed

theorem trim_blank_lines_witness:
  "trim_back (trim_front padded_section) = [u ''Added'', [], u ''- item ''] \<and>
   trim_back (trim_front padded_section) \<noteq> [] \<and>
   (\<exists>c\<in>set (hd (trim_back (trim_front padded_section))). \<not> isspace c) \<and>
   (\<exists>c\<in>set (last (trim_back (trim_front padded_section))). \<not> isspace c) \<and>
   list_all (list_all isspace) blank_section \<and>
   trim_back (trim_front blank_section) = []"
proof -
  have v: "trim_back (trim_front padded_section) = [u ''Added'', [], u ''- item '']"
    by (simp add: trim_back_dropWhile trim_front_dropWhile padded_section_def strip_def
        lstrip_def rstrip_def isspace_def u_def)
  have ne: "trim_back (trim_front padded_section) \<noteq> []"
    unfolding v by simp
  have b: "\<forall>l\<in>set blank_section. \<forall>c\<in>set l. isspace c"
    by (simp add: blank_section_def u_def isspace_def)
  have ends: "(\<exists>c\<in>set (hd (trim_back (trim_front padded_section))). \<not> isspace c) \<and>
      (\<exists>c\<in>set (last (trim_back (trim_front padded_section))). \<not> isspace c)"
    using trim_blank_lines [of padded_section] ne by blast
  have e: "trim_back (trim_front blank_section) = []"
    using trim_blank_lines [of blank_section] b by blast
  show ?thesis
    using b by (intro conjI v ne e conjunct1 [OF ends] conjunct2 [OF ends]) (simp add: list_all_iff)
qed

section \<open>Usage errors\<close>

text \<open>
  C6. When the argument list of the process does not have exactly two entries (the
  program name and one positional argument), or when the positional argument is empty or
  consists of whitespace only, every run returns exit status 2 and appends one line that
  is not empty to standard error, whatever the world is: also in a world where
  \<open>CHANGELOG.md\<close> cannot be read, in which a run that got as far as reading the file would
  end with an exception instead. Nothing is written to standard output.
\<close>

theorem usage_error_before_reading:
  assumes "length argv \<noteq> 2 \<or> (\<forall>c\<in>set (argv ! 1). isspace c)"
  shows "\<exists>msg. msg \<noteq> [] \<and>
           (\<forall>w. main argv w = (Inr 2, w\<lparr>stderr := stderr w @ msg @ [nl]\<rparr>))"
proof -
  let ?msg = "if length argv \<noteq> 2 then u ''Usage: extract_changelog.py <version>''
              else u ''Version cannot be empty''"
  from assms have a: "length argv \<noteq> 2 \<or> strip (argv ! 1) = []"
    by (simp add: strip_Nil_iff)
  have "?msg \<noteq> []" by (simp add: u_def)
  moreover have "\<forall>w. main argv w = (Inr 2, w\<lparr>stderr := stderr w @ ?msg @ [nl]\<rparr>)"
    using main_usage [OF a] by (simp add: print_stderr_def)
  ultimately show ?thesis by blast
qed

theorem usage_error_before_reading_witness:
  "fst (main [u ''extract_changelog.py'', u ''   ''] unreadable_world) = Inr 2 \<and>
   stdout (snd (main [u ''extract_changelog.py'', u ''   ''] unreadable_world)) = [] \<and>
   stderr (snd (main [u ''extract_changelog.py'', u ''   ''] unreadable_world)) \<noteq> [] \<and>
   fst (main [u ''extract_changelog.py''] unreadable_world) = Inr 2 \<and>
   fst (main [u ''extract_changelog.py'', u ''1.0'', u ''2.0''] unreadable_world) = Inr 2"
proof -
  have h1: "length [u ''extract_changelog.py'', u ''   ''] \<noteq> 2 \<or>
            (\<forall>c\<in>set ([u ''extract_changelog.py'', u ''   ''] ! 1). isspace c)"
    by (simp add: u_def isspace_def)
  have h2: "length [u ''extract_changelog.py''] \<noteq> 2 \<or>
            (\<forall>c\<in>set ([u ''extract_changelog.py''] ! 1). isspace c)"
    by simp
  have h3: "length [u ''extract_changelog.py'', u ''1.0'', u ''2.0''] \<noteq> 2 \<or>
            (\<forall>c\<in>set ([u ''extract_changelog.py'', u ''1.0'', u ''2.0''] ! 1). isspace c)"
    by simp
  from usage_error_before_reading [OF h1] obtain m1 where
    m1: "m1 \<noteq> []" "main [u ''extract_changelog.py'', u ''   ''] unreadable_world =
            (Inr 2, unreadable_world\<lparr>stderr := stderr unreadable_world @ m1 @ [nl]\<rparr>)"
    by blast
  from usage_error_before_reading [OF h2] obtain m2 where
    m2: "main [u ''extract_changelog.py''] unreadable_world =
            (Inr 2, unreadable_world\<lparr>stderr := stderr unreadable_world @ m2 @ [nl]\<rparr>)"
    by blast
  from usage_error_before_reading [OF h3] obtain m3 where
    m3: "main [u ''extract_changelog.py'', u ''1.0'', u ''2.0''] unreadable_world =
            (Inr 2, unreadable_world\<lparr>stderr := stderr unreadable_world @ m3 @ [nl]\<rparr>)"
    by blast
  show ?thesis
    unfolding m1(2) m2 m3 by (simp add: unreadable_world_def)
qed

section \<open>A version without a section\<close>

text \<open>
  C7. With one positional argument that is not blank and a readable document in which no
  line matches the heading pattern of the trimmed identifier, the run returns exit status
  1 and appends to standard error the line \<open>Could not find CHANGELOG section for version\<close>
  followed by the trimmed identifier; standard output and the document are unchanged.
\<close>

theorem missing_version_exit_1:
  assumes "length argv = 2" and "strip (argv ! 1) \<noteq> []"
    and "changelog_md w = Some content"
    and "header_re (strip (argv ! 1)) = Some hre"
    and "\<forall>line\<in>set (splitlines content). \<not> re_match hre line"
  shows "main argv w =
           (Inr 1, w\<lparr>stderr := stderr w @ u ''Could not find CHANGELOG section for version ''
                                  @ strip (argv ! 1) @ [nl]\<rparr>)"
proof -
  from assms(4) have hre: "hre = header_rx (strip (argv ! 1))"
    by (simp add: header_re_compiles)
  from assms(5) have "find_start (header_rx (strip (argv ! 1))) (splitlines content) 0 = None"
    unfolding hre by (simp add: find_start_None_iff)
  then show ?thesis
    using main_with_document [OF assms(1,2,3)] by (simp add: print_stderr_def)
qed

theorem missing_version_exit_1_witness:
  "main [u ''extract_changelog.py'', u ''9.9.9''] example_world =
     (Inr 1, example_world\<lparr>stderr :=
        u ''Could not find CHANGELOG section for version 9.9.9'' @ [nl]\<rparr>)"
proof -
  let ?argv = "[u ''extract_changelog.py'', u ''9.9.9'']"
  have v: "strip (?argv ! 1) = u ''9.9.9''"
    by (simp add: strip_def lstrip_def rstrip_def isspace_def u_def)
  have h1: "length ?argv = 2" by simp
  have h2: "strip (?argv ! 1) \<noteq> []" unfolding v by (simp add: u_def)
  have h3: "changelog_md example_world = Some example_changelog"
    by (simp add: example_world_def)
  have h4: "header_re (strip (?argv ! 1)) = Some (header_rx (u ''9.9.9''))"
    unfolding v by (rule header_re_compiles)
  have h5: "\<forall>line\<in>set (splitlines example_changelog). \<not> re_match (header_rx (u ''9.9.9'')) line"
    unfolding splitlines_example header_rx_match by (simp add: example_lines_def u_def)
  show ?thesis
    using missing_version_exit_1 [OF h1 h2 h3 h4 h5] unfolding v
    by (simp add: example_world_def u_def)
qed

section \<open>Runs do not depend on earlier runs\<close>

text \<open>
  C8. For a document and an argument list there is one exit status (or exception) \<open>r\<close>, one
  text \<open>out\<close> and one text \<open>err\<close> such that every run in a world that holds this document
  returns \<open>r\<close>, appends \<open>out\<close> to standard output and \<open>err\<close> to standard error, and changes
  nothing else: what earlier runs wrote has no influence, and the document is as it was, so
  that a second run returns and writes the same as the first.
\<close>

theorem no_persisting_state:
  "\<exists>r out err. \<forall>w. changelog_md w = doc \<longrightarrow>
      main argv w = (r, w\<lparr>stdout := stdout w @ out, stderr := stderr w @ err\<rparr>)"
proof (cases "length argv \<noteq> 2 \<or> strip (argv ! 1) = []")
  case True
  let ?msg = "if length argv \<noteq> 2 then u ''Usage: extract_changelog.py <version>''
              else u ''Version cannot be empty''"
  have "\<forall>w. changelog_md w = doc \<longrightarrow>
      main argv w = (Inr 2, w\<lparr>stdout := stdout w @ [], stderr := stderr w @ (?msg @ [nl])\<rparr>)"
    using main_usage [OF True] by (simp add: print_stderr_def)
  then show ?thesis by blast
next
  case False
  then have a: "length argv = 2" "strip (argv ! 1) \<noteq> []" by simp_all
  show ?thesis
  proof (cases doc)
    case None
    have "\<forall>w. changelog_md w = doc \<longrightarrow>
        main argv w = (Inl ReadError, w\<lparr>stdout := stdout w @ [], stderr := stderr w @ []\<rparr>)"
      using a None by (simp add: main_def Let_def)
    then show ?thesis by blast
  next
    case (Some content)
    let ?v = "strip (argv ! 1)"
    show ?thesis
    proof (cases "find_start (header_rx ?v) (splitlines content) 0")
      case None
      have "\<forall>w. changelog_md w = doc \<longrightarrow>
          main argv w = (Inr 1, w\<lparr>stdout := stdout w @ [],
             stderr := stderr w @ (u ''Could not find CHANGELOG section for version '' @ ?v @ [nl])\<rparr>)"
        using main_with_document [OF a] Some None by (simp add: print_stderr_def)
      then show ?thesis by blast
    next
      case (Some start)
      note st = Some
      have "\<forall>w. changelog_md w = doc \<longrightarrow>
          main argv w = (Inr 0, w\<lparr>stdout := stdout w @
               render (trim_back (trim_front (body_of (splitlines content) start))),
             stderr := stderr w @ []\<rparr>)"
        using main_with_document [OF a] \<open>doc = Some content\<close> st by (simp add: stdout_write_def)
      then show ?thesis by blast
    qed
  qed
qed

theorem no_persisting_state_witness:
  "changelog_md (snd (main example_argv duplicate_world)) = changelog_md duplicate_world \<and>
   fst (main example_argv (snd (main example_argv duplicate_world))) =
     fst (main example_argv duplicate_world) \<and>
   stdout (snd (main example_argv (snd (main example_argv duplicate_world)))) =
     stdout (snd (main example_argv duplicate_world)) @ stdout (snd (main example_argv duplicate_world)) \<and>
   stderr (snd (main example_argv (snd (main example_argv duplicate_world)))) =
     stderr (snd (main example_argv duplicate_world)) @ stderr (snd (main example_argv duplicate_world))"
proof -
  from no_persisting_state [of "Some duplicate_changelog" example_argv]
  obtain r out err where
    run: "\<And>w. changelog_md w = Some duplicate_changelog \<Longrightarrow>
            main example_argv w = (r, w\<lparr>stdout := stdout w @ out, stderr := stderr w @ err\<rparr>)"
    by blast
  have first: "main example_argv duplicate_world =
                 (r, duplicate_world\<lparr>stdout := out, stderr := err\<rparr>)"
    using run [of duplicate_world] by (simp add: duplicate_world_def)
  have second: "main example_argv (duplicate_world\<lparr>stdout := out, stderr := err\<rparr>) =
                 (r, duplicate_world\<lparr>stdout := out @ out, stderr := err @ err\<rparr>)"
    using run [of "duplicate_world\<lparr>stdout := out, stderr := err\<rparr>"]
    by (simp add: duplicate_world_def)
  show ?thesis
    unfolding first snd_conv fst_conv second by (simp add: duplicate_world_def)
qed

section \<open>Whitespace around the identifier\<close>

text \<open>
  C9. For an identifier whose trimmed form is not empty, the run with the identifier and
  the run with its trimmed form return the same status and the same world.
\<close>

theorem identifier_whitespace_ignored:
  assumes "strip ident \<noteq> []"
  shows "main [prog, ident] w = main [prog, strip ident] w"
  by (simp add: main_def strip_idem)

theorem identifier_whitespace_ignored_witness:
  "strip (u ''  0.2.4 '') \<noteq> [] \<and>
   main [u ''extract_changelog.py'', u ''  0.2.4 ''] example_world =
     main [u ''extract_changelog.py'', strip (u ''  0.2.4 '')] example_world \<and>
   strip (u ''  0.2.4 '') = u ''0.2.4''"
proof -
  have v: "strip (u ''  0.2.4 '') = u ''0.2.4''"
    by (simp add: strip_def lstrip_def rstrip_def isspace_def u_def)
  have ne: "strip (u ''  0.2.4 '') \<noteq> []"
    unfolding v by (simp add: u_def)
  show ?thesis
    using ne identifier_whitespace_ignored [OF ne] v by blast
qed

section \<open>The text written to standard output\<close>



section \<open>No heading in the output\<close>

text \<open>
  C10. In the text that a run with exit status 0 appends to standard output, no line (as
  \<open>str.splitlines\<close> cuts the text into lines) starts with \<open>## [\<close>: neither the matched heading
  nor a later heading is part of the output.
\<close>

theorem output_has_no_heading_line:
  assumes "main argv w = (Inr 0, w')"
  shows "\<exists>out. stdout w' = stdout w @ out \<and>
           (\<forall>line\<in>set (splitlines out). \<not> startswith line (u ''## [''))"
proof -
  from main_success [OF assms] obtain content start where
    c: "changelog_md w = Some content"
    and s: "find_start (header_rx (strip (argv ! 1))) (splitlines content) 0 = Some start"
    and w': "w' = stdout_write (render (trim_back (trim_front (body_of (splitlines content) start)))) w"
    by blast
  let ?lines = "splitlines content"
  let ?body = "trim_back (trim_front (body_of ?lines start))"
  from s have lt: "start < length ?lines" by (auto simp add: find_start_Some_iff)
  have body: "\<not> startswith l (u ''## ['') \<and> (\<forall>c\<in>set l. \<not> is_linebreak c)" if "l \<in> set ?body" for l
  proof -
    from that have "l \<in> set (body_of ?lines start)" using set_trim by blast
    from body_of_lines [OF lt this] show ?thesis by (auto dest: splitlines_clean)
  qed
  have out: "stdout w' = stdout w @ render ?body"
    unfolding w' by (simp add: stdout_write_def)
  have "\<forall>line\<in>set (splitlines (render ?body)). \<not> startswith line (u ''## ['')"
  proof (cases "?body = []")
    case True
    have "splitlines (render []) = [[]]"
      by (simp add: render_Nil splitlines_def nl_def is_linebreak_def)
    then show ?thesis unfolding True by (simp add: startswith_def u_def)
  next
    case False
    then obtain xs b where xb: "?body = xs @ [b]" by (cases "?body" rule: rev_cases) auto
    from trim_back_last [of "trim_front (body_of ?lines start)"] False xb
    have nb: "strip b \<noteq> []" by simp
    have r: "render ?body = join [nl] (xs @ [rstrip b]) @ [nl]"
      unfolding xb using nb by (rule render_snoc)
    have bb: "\<not> startswith b (u ''## ['') \<and> (\<forall>c\<in>set b. \<not> is_linebreak c)"
      using body [of b] xb by simp
    have clean: "\<forall>l\<in>set (xs @ [rstrip b]). \<forall>c\<in>set l. \<not> is_linebreak c"
    proof
      fix l assume "l \<in> set (xs @ [rstrip b])"
      then consider "l \<in> set xs" | "l = rstrip b" by auto
      then show "\<forall>c\<in>set l. \<not> is_linebreak c"
      proof cases
        case 1
        then have "l \<in> set ?body" using xb by simp
        then show ?thesis using body by blast
      next
        case 2
        then show ?thesis using bb set_rstrip [of b] by blast
      qed
    qed
    have sl: "splitlines (render ?body) = xs @ [rstrip b]"
      unfolding r by (rule splitlines_join) (simp, rule clean)
    show ?thesis
    proof
      fix line assume "line \<in> set (splitlines (render ?body))"
      then consider "line \<in> set xs" | "line = rstrip b" unfolding sl by auto
      then show "\<not> startswith line (u ''## ['')"
      proof cases
        case 1
        then have "line \<in> set ?body" using xb by simp
        then show ?thesis using body by blast
      next
        case 2
        then show ?thesis using bb startswith_rstrip [of b "u ''## [''"] by blast
      qed
    qed
  qed
  with out show ?thesis by blast
qed

theorem output_has_no_heading_line_witness:
  "main [u ''extract_changelog.py'', u ''0.2.4''] example_world =
     (Inr 0, example_world\<lparr>stdout := u ''Fixed a bug.'' @ [nl]\<rparr>) \<and>
   (\<exists>out. stdout (example_world\<lparr>stdout := u ''Fixed a bug.'' @ [nl]\<rparr>) = stdout example_world @ out \<and>
      (\<forall>line\<in>set (splitlines out). \<not> startswith line (u ''## ['')))"
  using main_example output_has_no_heading_line [OF main_example] by (rule conjI)
end
